theory Spec2Isabelle
  imports Complex_Main
begin

section \<open>JavaScript values\<close>

text \<open>
  The two detection screens (\<^verbatim>\<open>app/(tabs)/index.tsx\<close> and \<^verbatim>\<open>app/index.tsx\<close>) read an
  untyped JSON body. A string is its sequence of UTF-16 code units; \<open>str\<close> writes an
  ASCII literal.
\<close>

type_synonym jsstring = "nat list"

definition str :: "string \<Rightarrow> jsstring" where
  "str s = map of_char s"

text \<open>
  A number that \<^verbatim>\<open>response.json()\<close> can produce is finite or an infinity, never NaN.
  Finite doubles are read as the reals they denote: the comparator of the sort only
  looks at the sign of a difference, and the rounded difference of two doubles has the
  sign of the exact one.
\<close>

datatype xreal = NInf | Fin real | PInf

datatype jsnum = NaN | Val xreal

datatype json =
    JNull
  | JBool bool
  | JNum xreal
  | JStr jsstring
  | JArr "json list"
  | JObj "(jsstring \<times> json) list"

text \<open>
  What the \<^verbatim>\<open>try\<close> block can throw: a rejection of the camera, of \<^verbatim>\<open>fetch\<close> or of
  \<^verbatim>\<open>response.json()\<close> with its \<^verbatim>\<open>message\<close> if it has one, the \<^verbatim>\<open>Error\<close> made for a bad
  status, or a TypeError of the engine. \<open>errorMessage\<close> is
  \<^verbatim>\<open>(err as Error)?.message ?? 'Unable to contact backend.'\<close>; the wording of the engine's
  own TypeError is not in the source and stays symbolic.
\<close>

datatype thrown =
    Rejected "jsstring option"
  | ServerError nat
  | TypeError

datatype message = Text jsstring | TypeErrorText

fun decimal :: "nat \<Rightarrow> jsstring" where
  "decimal n = (if n < 10 then [48 + n] else decimal (n div 10) @ [48 + n mod 10])"

declare decimal.simps [simp del]

definition errorMessage :: "thrown \<Rightarrow> message" where
  "errorMessage e =
     (case e of
        Rejected None \<Rightarrow> Text (str ''Unable to contact backend.'')
      | Rejected (Some m) \<Rightarrow> Text m
      | ServerError status \<Rightarrow> Text (str ''Server error: '' @ decimal status)
      | TypeError \<Rightarrow> TypeErrorText)"

subsection \<open>Property reads, \<^verbatim>\<open>??\<close> and \<^verbatim>\<open>Number\<close>\<close>

text \<open>
  \<open>member_js v k\<close> is \<^verbatim>\<open>v.k\<close> for a value other than \<^verbatim>\<open>null\<close>, \<open>None\<close> standing for
  \<^verbatim>\<open>undefined\<close>. It is used for the names \<^verbatim>\<open>objects\<close>, \<^verbatim>\<open>alert_text\<close>, \<^verbatim>\<open>answer_text\<close>,
  \<^verbatim>\<open>label\<close>, \<^verbatim>\<open>distance\<close>, \<^verbatim>\<open>direction\<close> and \<^verbatim>\<open>risk\<close>, which no built-in prototype
  defines: only an object's own properties can answer. \<open>JObj\<close> lists the properties of
  the parsed object, each name once. \<open>get_member\<close> is the plain read, which throws on
  \<^verbatim>\<open>null\<close>; \<open>opt_member\<close> is \<^verbatim>\<open>v?.k\<close>; \<open>coalesce\<close> is \<^verbatim>\<open>??\<close>.
\<close>

fun member_js :: "json \<Rightarrow> jsstring \<Rightarrow> json option" where
  "member_js (JObj kvs) k = map_of kvs k"
| "member_js _ k = None"

definition get_member :: "json \<Rightarrow> jsstring \<Rightarrow> thrown + json option" where
  "get_member v k = (case v of JNull \<Rightarrow> Inl TypeError | _ \<Rightarrow> Inr (member_js v k))"

definition opt_member :: "json \<Rightarrow> jsstring \<Rightarrow> json option" where
  "opt_member v k = (case v of JNull \<Rightarrow> None | _ \<Rightarrow> member_js v k)"

definition coalesce :: "json option \<Rightarrow> json \<Rightarrow> json" where
  "coalesce x d = (case x of None \<Rightarrow> d | Some JNull \<Rightarrow> d | Some v \<Rightarrow> v)"

text \<open>
  \<^verbatim>\<open>Number(v)\<close>. A parsed object has no callable property of its own, so converting it
  to a primitive throws a TypeError exactly when it has an own property \<^verbatim>\<open>toString\<close>
  (which hides \<^verbatim>\<open>Object.prototype.toString\<close>), and gives \<^verbatim>\<open>"[object Object]"\<close>, hence NaN,
  otherwise. An array is joined from its elements' strings, which throws when one of them
  does. What number a string, or the string of an array, reads as is the language's
  numeric-literal grammar with rounding to a double; the model takes it as the parameter
  \<open>reading\<close>, and every statement below holds for every reading.
\<close>

fun toString_throws :: "json \<Rightarrow> bool" where
  "toString_throws (JObj kvs) = (str ''toString'' \<in> fst ` set kvs)"
| "toString_throws (JArr xs) = (\<exists>x\<in>set xs. toString_throws x)"
| "toString_throws _ = False"

definition toNumber :: "(json \<Rightarrow> jsnum) \<Rightarrow> json \<Rightarrow> thrown + jsnum" where
  "toNumber reading v =
     (case v of
        JNull \<Rightarrow> Inr (Val (Fin 0))
      | JBool b \<Rightarrow> Inr (Val (Fin (if b then 1 else 0)))
      | JNum n \<Rightarrow> Inr (Val n)
      | JStr s \<Rightarrow> Inr (reading v)
      | JArr xs \<Rightarrow> if toString_throws v then Inl TypeError else Inr (reading v)
      | JObj kvs \<Rightarrow> if toString_throws v then Inl TypeError else Inr NaN)"

text \<open>The values that \<^verbatim>\<open>!text\<close> and \<^verbatim>\<open>||\<close> take for false.\<close>

definition falsy :: "json \<Rightarrow> bool" where
  "falsy v = (v = JNull \<or> v = JBool False \<or> v = JNum (Fin 0) \<or> v = JStr [])"

subsection \<open>\<^verbatim>\<open>String.prototype.trim\<close>\<close>

text \<open>The code units \<^verbatim>\<open>trim\<close> strips: white space and line terminators.\<close>

definition isWhiteSpace :: "nat \<Rightarrow> bool" where
  "isWhiteSpace c =
     (c \<in> {9, 10, 11, 12, 13, 32, 160, 5760, 8232, 8233, 8239, 8287, 12288, 65279}
      \<or> (8192 \<le> c \<and> c \<le> 8202))"

definition trim :: "jsstring \<Rightarrow> jsstring" where
  "trim s = rev (dropWhile isWhiteSpace (rev (dropWhile isWhiteSpace s)))"

section \<open>Parsing a response into detections\<close>

record detection =
  label :: json
  distance :: jsnum
  direction :: json
  risk :: json

text \<open>The comparator \<^verbatim>\<open>(a, b) => a.distance - b.distance\<close>.\<close>

fun js_minus :: "jsnum \<Rightarrow> jsnum \<Rightarrow> jsnum" where
  "js_minus (Val (Fin a)) (Val (Fin b)) = Val (Fin (a - b))"
| "js_minus (Val PInf) (Val PInf) = NaN"
| "js_minus (Val NInf) (Val NInf) = NaN"
| "js_minus (Val PInf) (Val _) = Val PInf"
| "js_minus (Val NInf) (Val _) = Val NInf"
| "js_minus (Val (Fin a)) (Val PInf) = Val NInf"
| "js_minus (Val (Fin a)) (Val NInf) = Val PInf"
| "js_minus NaN _ = NaN"
| "js_minus _ NaN = NaN"

fun positive :: "jsnum \<Rightarrow> bool" where
  "positive (Val (Fin r)) = (0 < r)"
| "positive (Val PInf) = True"
| "positive _ = False"

definition compareDistance :: "detection \<Rightarrow> detection \<Rightarrow> jsnum" where
  "compareDistance a b = js_minus (distance a) (distance b)"

text \<open>
  \<^verbatim>\<open>Array.prototype.sort\<close> is stable: an element moves behind another only when the
  comparator is positive; a zero or NaN result keeps the two in their order. When no
  distance is NaN the comparator is consistent and the sorted list is determined. With a
  NaN distance the language leaves the order to the engine, and \<open>sort_js\<close> is then one
  possible order, not necessarily the engine's.
\<close>

fun insert_js :: "('a \<Rightarrow> 'a \<Rightarrow> jsnum) \<Rightarrow> 'a \<Rightarrow> 'a list \<Rightarrow> 'a list" where
  "insert_js cmp x [] = [x]"
| "insert_js cmp x (y # ys) =
     (if positive (cmp x y) then y # insert_js cmp x ys else x # y # ys)"

fun sort_js :: "('a \<Rightarrow> 'a \<Rightarrow> jsnum) \<Rightarrow> 'a list \<Rightarrow> 'a list" where
  "sort_js cmp [] = []"
| "sort_js cmp (x # xs) = insert_js cmp x (sort_js cmp xs)"

fun map_throwing :: "('a \<Rightarrow> thrown + 'b) \<Rightarrow> 'a list \<Rightarrow> thrown + 'b list" where
  "map_throwing f [] = Inr []"
| "map_throwing f (x # xs) =
     (case f x of
        Inl e \<Rightarrow> Inl e
      | Inr y \<Rightarrow> (case map_throwing f xs of Inl e \<Rightarrow> Inl e | Inr ys \<Rightarrow> Inr (y # ys)))"

definition toDetection :: "(json \<Rightarrow> jsnum) \<Rightarrow> json \<Rightarrow> thrown + detection" where
  "toDetection reading item =
     (case toNumber reading (coalesce (opt_member item (str ''distance'')) (JNum (Fin 0))) of
        Inl e \<Rightarrow> Inl e
      | Inr d \<Rightarrow>
          Inr \<lparr>label = coalesce (opt_member item (str ''label'')) (JStr (str ''Unknown'')),
               distance = d,
               direction = coalesce (opt_member item (str ''direction'')) (JStr (str ''center'')),
               risk = coalesce (opt_member item (str ''risk'')) (JStr (str ''clear''))\<rparr>)"

definition objectsOf :: "json option \<Rightarrow> json list" where
  "objectsOf v = (case v of Some (JArr xs) \<Rightarrow> xs | _ \<Rightarrow> [])"

definition parseDetections :: "(json \<Rightarrow> jsnum) \<Rightarrow> json \<Rightarrow> thrown + detection list" where
  "parseDetections reading json =
     (case get_member json (str ''objects'') of
        Inl e \<Rightarrow> Inl e
      | Inr v \<Rightarrow>
          (case map_throwing (toDetection reading) (objectsOf v) of
             Inl e \<Rightarrow> Inl e
           | Inr ds \<Rightarrow> Inr (sort_js compareDistance ds)))"

text \<open>Non-decreasing in distance; NaN is below and above nothing.\<close>

fun num_le :: "jsnum \<Rightarrow> jsnum \<Rightarrow> bool" where
  "num_le (Val (Fin a)) (Val (Fin b)) = (a \<le> b)"
| "num_le (Val NInf) (Val _) = True"
| "num_le (Val _) (Val PInf) = True"
| "num_le _ _ = False"

definition nondecreasing :: "detection list \<Rightarrow> bool" where
  "nondecreasing ds = sorted_wrt (\<lambda>a b. num_le (distance a) (distance b)) ds"

section \<open>The state of a screen and one capture-and-send\<close>

datatype speech = SpeechStop | SpeechSpeak json

record screen =
  isSending :: bool
  alertText :: json
  error :: message
  isDetecting :: bool
  detections :: "detection list"
  userQuestion :: jsstring
  spoken :: "speech list"

definition speakAlert :: "json \<Rightarrow> screen \<Rightarrow> screen" where
  "speakAlert text s =
     (if falsy text then s else s\<lparr>spoken := spoken s @ [SpeechStop, SpeechSpeak text]\<rparr>)"

text \<open>What the collaborators answer to one call: the camera, \<^verbatim>\<open>fetch\<close>, \<^verbatim>\<open>response.json()\<close>.\<close>

datatype body = Body json | BadBody "jsstring option"

datatype outcome =
    CaptureRejected "jsstring option"
  | FetchRejected "jsstring option"
  | Responded nat body

definition ok :: "nat \<Rightarrow> bool" where
  "ok status = (200 \<le> status \<and> status \<le> 299)"

text \<open>The multipart body that is posted once the photo is there.\<close>

record request =
  file_uri :: jsstring
  file_name :: jsstring
  file_type :: jsstring
  question :: "jsstring option"

definition defaultQuestion :: jsstring where
  "defaultQuestion = str ''What important things are in front of me and where are they?''"

definition questionToSend :: "jsstring \<Rightarrow> jsstring" where
  "questionToSend q = (if trim q = [] then defaultQuestion else trim q)"

definition detectRequest :: "jsstring \<Rightarrow> request" where
  "detectRequest uri =
     \<lparr>file_uri = uri, file_name = str ''photo.jpg'', file_type = str ''image/jpeg'',
      question = None\<rparr>"

definition smartQueryRequest :: "jsstring \<Rightarrow> jsstring \<Rightarrow> request" where
  "smartQueryRequest uri q = (detectRequest uri)\<lparr>question := Some (questionToSend q)\<rparr>"

text \<open>
  The part of each \<^verbatim>\<open>try\<close> block after \<^verbatim>\<open>response.json()\<close>: the state it reaches, and
  what it threw if it did not reach its end.
\<close>

definition detectBody :: "(json \<Rightarrow> jsnum) \<Rightarrow> json \<Rightarrow> screen \<Rightarrow> screen \<times> thrown option" where
  "detectBody reading json s =
     (case parseDetections reading json of
        Inl e \<Rightarrow> (s, Some e)
      | Inr ds \<Rightarrow>
          (let newAlert = coalesce (member_js json (str ''alert_text'')) (JStr [])
           in (speakAlert newAlert (s\<lparr>detections := ds, alertText := newAlert\<rparr>), None)))"

definition queryBody ::
  "(json \<Rightarrow> jsnum) \<Rightarrow> jsstring \<Rightarrow> json \<Rightarrow> screen \<Rightarrow> screen \<times> thrown option" where
  "queryBody reading sent json s =
     (case parseDetections reading json of
        Inl e \<Rightarrow> (s, Some e)
      | Inr ds \<Rightarrow>
          (case coalesce (member_js json (str ''answer_text'')) (JStr []) of
             JStr t \<Rightarrow>
               (let spokenText = JStr (if trim t = [] then sent else trim t)
                in (speakAlert spokenText (s\<lparr>detections := ds, alertText := spokenText\<rparr>), None))
           | _ \<Rightarrow> (s\<lparr>detections := ds\<rparr>, Some TypeError)))"

text \<open>
  The \<^verbatim>\<open>try\<close>/\<^verbatim>\<open>catch\<close>/\<^verbatim>\<open>finally\<close> of \<^verbatim>\<open>captureAndSend\<close> and \<^verbatim>\<open>handleSmartQuery\<close> from
  the first \<^verbatim>\<open>await\<close> on, given what the collaborators answered.
\<close>

definition settle ::
  "(json \<Rightarrow> screen \<Rightarrow> screen \<times> thrown option) \<Rightarrow> outcome \<Rightarrow> screen \<Rightarrow> screen" where
  "settle parse out s =
     (let (s1, err) =
        (case out of
           CaptureRejected m \<Rightarrow> (s, Some (Rejected m))
         | FetchRejected m \<Rightarrow> (s, Some (Rejected m))
         | Responded status b \<Rightarrow>
             (if \<not> ok status then (s, Some (ServerError status))
              else (case b of
                      BadBody m \<Rightarrow> (s, Some (Rejected m))
                    | Body json \<Rightarrow> parse json s)));
          s2 = (case err of None \<Rightarrow> s1 | Some e \<Rightarrow> s1\<lparr>error := errorMessage e\<rparr>)
      in s2\<lparr>isSending := False\<rparr>)"

text \<open>
  The guard and the two updates before the first \<^verbatim>\<open>await\<close>. \<open>camera\<close> is whether
  \<^verbatim>\<open>cameraRef.current\<close> is set; \<open>sending\<close> is the \<^verbatim>\<open>isSending\<close> that the closure holds,
  the value of the render in which the closure was made.
\<close>

definition enter :: "bool \<Rightarrow> bool \<Rightarrow> screen \<Rightarrow> screen option" where
  "enter camera sending s =
     (if \<not> camera \<or> sending then None else Some (s\<lparr>error := Text [], isSending := True\<rparr>))"

definition captureAndSend ::
  "(json \<Rightarrow> jsnum) \<Rightarrow> bool \<Rightarrow> bool \<Rightarrow> outcome \<Rightarrow> screen \<Rightarrow> screen" where
  "captureAndSend reading camera sending out s =
     (case enter camera sending s of
        None \<Rightarrow> s
      | Some s1 \<Rightarrow> settle (detectBody reading) out s1)"

definition handleSmartQuery ::
  "(json \<Rightarrow> jsnum) \<Rightarrow> bool \<Rightarrow> bool \<Rightarrow> outcome \<Rightarrow> screen \<Rightarrow> screen" where
  "handleSmartQuery reading camera sending out s =
     (case enter camera sending s of
        None \<Rightarrow> s
      | Some s1 \<Rightarrow> settle (queryBody reading (questionToSend (userQuestion s))) out s1)"

section \<open>The detection loop of a mounted screen\<close>

text \<open>
  The effect with dependencies \<^verbatim>\<open>[isDetecting, permission?.granted]\<close> makes, each time it
  runs with detection on, one instance of \<^verbatim>\<open>runCycle\<close>. The instance holds its own
  \<^verbatim>\<open>cancelled\<close> flag and the \<^verbatim>\<open>captureAndSend\<close> of the render that made it, hence that
  render's \<^verbatim>\<open>isSending\<close> and \<^verbatim>\<open>isDetecting\<close>. A state update and the render and effects
  that follow it are one step, and a render sees every earlier update.
\<close>

record closure =
  sawSending :: bool
  sawDetecting :: bool
  cancelled :: bool

record timer =
  tid :: nat
  instance_of :: nat
  delay :: nat

datatype kind = Detect | Query jsstring

record call =
  kind_of :: kind
  awaitedBy :: "nat option"

record sys =
  ui :: screen
  camera :: bool
  permission :: "bool option"
  closures :: "nat \<Rightarrow> closure"
  nextInstance :: nat
  cleanup :: "nat option"
  loopRef :: "nat option"
  timers :: "timer list"
  nextTimer :: nat
  inflight :: "call list"
  shots :: nat

definition granted :: "sys \<Rightarrow> bool" where
  "granted s = (permission s = Some True)"

definition clearLoopTimer :: "sys \<Rightarrow> sys" where
  "clearLoopTimer s =
     (case loopRef s of
        None \<Rightarrow> s
      | Some t \<Rightarrow> s\<lparr>timers := filter (\<lambda>x. tid x \<noteq> t) (timers s), loopRef := None\<rparr>)"

text \<open>\<^verbatim>\<open>runCycle\<close> after its \<^verbatim>\<open>await captureAndSend()\<close>.\<close>

definition rearm :: "nat \<Rightarrow> sys \<Rightarrow> sys" where
  "rearm i s =
     (if cancelled (closures s i) \<or> \<not> sawDetecting (closures s i) then s
      else s\<lparr>loopRef := Some (nextTimer s),
             timers := timers s @ [\<lparr>tid = nextTimer s, instance_of = i, delay = 1500\<rparr>],
             nextTimer := nextTimer s + 1\<rparr>)"

text \<open>\<^verbatim>\<open>runCycle\<close> up to the first \<^verbatim>\<open>await\<close> inside \<^verbatim>\<open>captureAndSend\<close>.\<close>

definition runCycle :: "nat \<Rightarrow> sys \<Rightarrow> sys" where
  "runCycle i s =
     (if cancelled (closures s i) then s
      else (case enter (camera s) (sawSending (closures s i)) (ui s) of
              None \<Rightarrow> rearm i s
            | Some u \<Rightarrow>
                s\<lparr>ui := u,
                  inflight := inflight s @ [\<lparr>kind_of = Detect, awaitedBy = Some i\<rparr>],
                  shots := shots s + 1\<rparr>))"

definition runCleanup :: "sys \<Rightarrow> sys" where
  "runCleanup s =
     (case cleanup s of
        None \<Rightarrow> s
      | Some i \<Rightarrow>
          clearLoopTimer
            (s\<lparr>closures := (closures s)(i := (closures s i)\<lparr>cancelled := True\<rparr>),
               cleanup := None\<rparr>))"

definition loopEffect :: "sys \<Rightarrow> sys" where
  "loopEffect s0 =
     (let s = runCleanup s0 in
      if \<not> isDetecting (ui s) \<or> \<not> granted s then clearLoopTimer s
      else
        (let i = nextInstance s in
         runCycle i
           (s\<lparr>closures := (closures s)
                  (i := \<lparr>sawSending = isSending (ui s), sawDetecting = isDetecting (ui s),
                         cancelled = False\<rparr>),
              nextInstance := i + 1,
              cleanup := Some i\<rparr>)))"

text \<open>
  A render after the state went from \<open>old\<close> to \<open>s\<close>. The effect
  \<^verbatim>\<open>if (!permission?.granted && isDetecting) setIsDetecting(false)\<close> and the render it
  causes are folded in: detection is switched off before the loop effect is run.
\<close>

definition render :: "sys \<Rightarrow> sys \<Rightarrow> sys" where
  "render old s0 =
     (let s = (if \<not> granted s0 \<and> isDetecting (ui s0)
               then s0\<lparr>ui := (ui s0)\<lparr>isDetecting := False\<rparr>\<rparr> else s0)
      in if (isDetecting (ui s), granted s) \<noteq> (isDetecting (ui old), granted old)
         then loopEffect s else s)"

definition toggled :: "sys \<Rightarrow> sys" where
  "toggled s = s\<lparr>ui := (ui s)\<lparr>isDetecting := \<not> isDetecting (ui s)\<rparr>\<rparr>"

text \<open>\<^verbatim>\<open>handleToggleDetection\<close>; \<open>answer\<close> is what a permission request would return.\<close>

definition handleToggleDetection :: "bool \<Rightarrow> sys \<Rightarrow> sys" where
  "handleToggleDetection answer s =
     (case permission s of
        None \<Rightarrow> render s (s\<lparr>permission := Some answer\<rparr>)
      | Some False \<Rightarrow>
          (if answer then render s (toggled (s\<lparr>permission := Some True\<rparr>)) else s)
      | Some True \<Rightarrow> render s (toggled s))"

definition settleCall :: "(json \<Rightarrow> jsnum) \<Rightarrow> nat \<Rightarrow> outcome \<Rightarrow> sys \<Rightarrow> sys" where
  "settleCall reading k out s =
     (if k < length (inflight s) then
        (let c = inflight s ! k;
             parse = (case kind_of c of
                        Detect \<Rightarrow> detectBody reading
                      | Query sent \<Rightarrow> queryBody reading sent);
             s1 = s\<lparr>ui := settle parse out (ui s),
                    inflight := take k (inflight s) @ drop (Suc k) (inflight s)\<rparr>
         in case awaitedBy c of None \<Rightarrow> s1 | Some i \<Rightarrow> rearm i s1)
      else s)"

definition fire :: "nat \<Rightarrow> sys \<Rightarrow> sys" where
  "fire t s =
     (case find (\<lambda>x. tid x = t) (timers s) of
        None \<Rightarrow> s
      | Some x \<Rightarrow> runCycle (instance_of x) (s\<lparr>timers := filter (\<lambda>y. tid y \<noteq> t) (timers s)\<rparr>))"

datatype event =
    Toggle bool
  | Permission bool
  | Camera bool
  | TimerFire nat
  | Settle nat outcome

fun step :: "(json \<Rightarrow> jsnum) \<Rightarrow> event \<Rightarrow> sys \<Rightarrow> sys" where
  "step reading (Toggle answer) s = handleToggleDetection answer s"
| "step reading (Permission b) s = render s (s\<lparr>permission := Some b\<rparr>)"
| "step reading (Camera b) s = s\<lparr>camera := b\<rparr>"
| "step reading (TimerFire t) s = fire t s"
| "step reading (Settle k out) s = settleCall reading k out s"

fun run :: "(json \<Rightarrow> jsnum) \<Rightarrow> event list \<Rightarrow> sys \<Rightarrow> sys" where
  "run reading [] s = s"
| "run reading (e # es) s = run reading es (step reading e s)"

definition idle :: screen where
  "idle = \<lparr>isSending = False, alertText = JStr [], error = Text [], isDetecting = False,
           detections = [], userQuestion = [], spoken = []\<rparr>"

definition mounted :: sys where
  "mounted =
     \<lparr>ui = idle, camera = False, permission = None,
      closures = (\<lambda>i. \<lparr>sawSending = False, sawDetecting = False, cancelled = False\<rparr>),
      nextInstance = 0, cleanup = None, loopRef = None, timers = [], nextTimer = 1,
      inflight = [], shots = 0\<rparr>"

subsection \<open>The screen with the smart query\<close>

text \<open>
  \<^verbatim>\<open>app/index.tsx\<close> has the same loop and, beside it, \<^verbatim>\<open>handleSmartQuery\<close> on a button and
  the question in a text input. The button's handler is the one of the latest render.
\<close>

datatype app_event = Loop event | Ask | Question jsstring

definition pressSmartQuery :: "sys \<Rightarrow> sys" where
  "pressSmartQuery s =
     (case enter (camera s) (isSending (ui s)) (ui s) of
        None \<Rightarrow> s
      | Some u \<Rightarrow>
          s\<lparr>ui := u,
            inflight := inflight s @
              [\<lparr>kind_of = Query (questionToSend (userQuestion (ui s))), awaitedBy = None\<rparr>],
            shots := shots s + 1\<rparr>)"

fun app_step :: "(json \<Rightarrow> jsnum) \<Rightarrow> app_event \<Rightarrow> sys \<Rightarrow> sys" where
  "app_step reading (Loop e) s = step reading e s"
| "app_step reading Ask s = pressSmartQuery s"
| "app_step reading (Question q) s = s\<lparr>ui := (ui s)\<lparr>userQuestion := q\<rparr>\<rparr>"

fun app_run :: "(json \<Rightarrow> jsnum) \<Rightarrow> app_event list \<Rightarrow> sys \<Rightarrow> sys" where
  "app_run reading [] s = s"
| "app_run reading (e # es) s = app_run reading es (app_step reading e s)"

text \<open>
  A reading for the concrete runs below, whose responses hold no string or array where a
  distance is expected.
\<close>

definition unreadable :: "json \<Rightarrow> jsnum" where
  "unreadable v = NaN"

subsection \<open>What every state of the running loop satisfies\<close>

text \<open>
  \<open>loop_inv\<close> describes the states the screen without a smart query reaches: at most one
  call is outstanding and \<^verbatim>\<open>isSending\<close> says so; at most one timeout is pending, it is the
  one in \<^verbatim>\<open>detectionLoopRef\<close> and belongs to the instance whose cleanup React holds; every
  other instance is cancelled; and while that instance waits on its timeout it has no
  call of its own outstanding, and none at all if its closure saw \<^verbatim>\<open>isSending\<close> false.
  \<open>halted\<close> describes the loop after detection was switched off.
\<close>

definition loop_inv :: "sys \<Rightarrow> bool" where
  "loop_inv s \<longleftrightarrow>
     length (inflight s) \<le> 1
   \<and> (isSending (ui s) \<longleftrightarrow> inflight s \<noteq> [])
   \<and> (\<forall>c\<in>set (inflight s). kind_of c = Detect \<and> (\<exists>i<nextInstance s. awaitedBy c = Some i))
   \<and> length (timers s) \<le> 1
   \<and> (\<forall>x\<in>set (timers s). loopRef s = Some (tid x) \<and> cleanup s = Some (instance_of x))
   \<and> (\<forall>i. cleanup s = Some i \<longrightarrow>
          i < nextInstance s \<and> \<not> cancelled (closures s i) \<and> sawDetecting (closures s i))
   \<and> (\<forall>i<nextInstance s. cleanup s \<noteq> Some i \<longrightarrow> cancelled (closures s i))
   \<and> (timers s \<noteq> [] \<longrightarrow>
          (\<forall>c\<in>set (inflight s). awaitedBy c \<noteq> cleanup s)
        \<and> (\<forall>i. cleanup s = Some i \<and> \<not> sawSending (closures s i) \<longrightarrow> inflight s = []))
   \<and> (isDetecting (ui s) \<longrightarrow> granted s)"

definition halted :: "sys \<Rightarrow> bool" where
  "halted s \<longleftrightarrow>
     timers s = [] \<and> \<not> isDetecting (ui s)
   \<and> (\<forall>c\<in>set (inflight s). \<forall>i. awaitedBy c = Some i \<longrightarrow> cancelled (closures s i))"

section \<open>Properties of one capture-and-send\<close>

lemma trim_empty_iff: "trim q = [] \<longleftrightarrow> (\<forall>c\<in>set q. isWhiteSpace c)"
proof
  assume "trim q = []"
  then have "dropWhile isWhiteSpace (rev (dropWhile isWhiteSpace q)) = []"
    by (simp add: trim_def)
  then have all: "\<forall>c\<in>set (dropWhile isWhiteSpace q). isWhiteSpace c"
    by (simp add: dropWhile_eq_Nil_conv)
  have "dropWhile isWhiteSpace q = []"
  proof (rule ccontr)
    assume ne: "dropWhile isWhiteSpace q \<noteq> []"
    then have "\<not> isWhiteSpace (hd (dropWhile isWhiteSpace q))"
      by (rule hd_dropWhile)
    moreover have "hd (dropWhile isWhiteSpace q) \<in> set (dropWhile isWhiteSpace q)"
      using ne by simp
    ultimately show False using all by blast
  qed
  then show "\<forall>c\<in>set q. isWhiteSpace c"
    by (simp add: dropWhile_eq_Nil_conv)
next
  assume "\<forall>c\<in>set q. isWhiteSpace c"
  then have "dropWhile isWhiteSpace q = []"
    by (simp add: dropWhile_eq_Nil_conv)
  then show "trim q = []"
    by (simp add: trim_def del: dropWhile_eq_Nil_conv)
qed

lemma questionToSend_nonempty: "questionToSend q \<noteq> []"
  by (simp add: questionToSend_def defaultQuestion_def str_def)

text \<open>
  C9. The \<^verbatim>\<open>question\<close> field of the smart query's request body is the default prompt when
  the user's question consists of white space only (the empty question included), and
  the trimmed question otherwise.
\<close>

theorem idle_query_fallback:
  "question (smartQueryRequest uri q) =
     Some (if (\<forall>c\<in>set q. isWhiteSpace c) then defaultQuestion else trim q)"
  by (simp add: smartQueryRequest_def questionToSend_def trim_empty_iff)

theorem idle_query_fallback_witness:
  "question (smartQueryRequest (str ''a.jpg'') (str ''  '')) = Some defaultQuestion
   \<and> question (smartQueryRequest (str ''a.jpg'') (str '' exit? '')) = Some (str ''exit?'')"
  using idle_query_fallback [of "str ''a.jpg''" "str ''  ''"]
        idle_query_fallback [of "str ''a.jpg''" "str '' exit? ''"]
  by (simp add: str_def isWhiteSpace_def trim_def)

lemma settle_failed:
  "settle parse (CaptureRejected m) s = s\<lparr>error := errorMessage (Rejected m), isSending := False\<rparr>"
  "settle parse (FetchRejected m) s = s\<lparr>error := errorMessage (Rejected m), isSending := False\<rparr>"
  "\<not> ok status \<Longrightarrow>
     settle parse (Responded status b) s =
       s\<lparr>error := errorMessage (ServerError status), isSending := False\<rparr>"
  by (simp_all add: settle_def)

text \<open>
  C5. A cycle that passes the guard and then fails on a response whose status is outside
  200..299, or on a rejected \<^verbatim>\<open>fetch\<close>, ends in the state it started from with only
  \<^verbatim>\<open>error\<close> set to the failure's message (\<^verbatim>\<open>Server error: <status>\<close>, the message of the
  rejection, or \<^verbatim>\<open>Unable to contact backend.\<close> when the rejection carries none) and
  \<^verbatim>\<open>isSending\<close> false: \<^verbatim>\<open>detections\<close> and \<^verbatim>\<open>alertText\<close> are as before.
\<close>

theorem failed_cycle_frame:
  "(\<not> ok status \<longrightarrow>
      captureAndSend reading True False (Responded status b) s =
        s\<lparr>error := Text (str ''Server error: '' @ decimal status), isSending := False\<rparr>
      \<and> handleSmartQuery reading True False (Responded status b) s =
        s\<lparr>error := Text (str ''Server error: '' @ decimal status), isSending := False\<rparr>)
   \<and> captureAndSend reading True False (FetchRejected (Some m)) s =
        s\<lparr>error := Text m, isSending := False\<rparr>
   \<and> handleSmartQuery reading True False (FetchRejected (Some m)) s =
        s\<lparr>error := Text m, isSending := False\<rparr>
   \<and> captureAndSend reading True False (FetchRejected None) s =
        s\<lparr>error := Text (str ''Unable to contact backend.''), isSending := False\<rparr>
   \<and> handleSmartQuery reading True False (FetchRejected None) s =
        s\<lparr>error := Text (str ''Unable to contact backend.''), isSending := False\<rparr>"
  by (simp add: captureAndSend_def handleSmartQuery_def enter_def settle_failed errorMessage_def)

theorem failed_cycle_frame_witness:
  "\<not> ok 503
   \<and> captureAndSend unreadable True False (Responded 503 (Body JNull)) idle =
       idle\<lparr>error := Text (str ''Server error: 503'')\<rparr>
   \<and> detections
        (captureAndSend unreadable True False (FetchRejected (Some (str ''Network request failed'')))
          (idle\<lparr>detections := [\<lparr>label = JNull, distance = NaN, direction = JNull, risk = JNull\<rparr>]\<rparr>))
      = [\<lparr>label = JNull, distance = NaN, direction = JNull, risk = JNull\<rparr>]"
  using failed_cycle_frame [of 503 unreadable "Body JNull" idle "str ''Network request failed''"]
    failed_cycle_frame [of 503 unreadable "Body JNull"
      "idle\<lparr>detections := [\<lparr>label = JNull, distance = NaN, direction = JNull, risk = JNull\<rparr>]\<rparr>"
      "str ''Network request failed''"]
  by (simp add: ok_def idle_def str_def decimal.simps)

lemma positive_minus_le: "a \<noteq> NaN \<Longrightarrow> b \<noteq> NaN \<Longrightarrow> positive (js_minus a b) \<Longrightarrow> num_le b a"
  by (induction a b rule: js_minus.induct) auto

lemma not_positive_minus_le:
  "a \<noteq> NaN \<Longrightarrow> b \<noteq> NaN \<Longrightarrow> \<not> positive (js_minus a b) \<Longrightarrow> num_le a b"
  by (induction a b rule: js_minus.induct) auto

lemma num_le_trans: "num_le a b \<Longrightarrow> num_le b c \<Longrightarrow> num_le a c"
  by (induction a b rule: num_le.induct; cases c rule: jsnum.exhaust; (simp; fail)?)
     (rename_tac x, case_tac x; simp)+

lemma set_insert_js: "set (insert_js cmp x ys) = insert x (set ys)"
  by (induction ys) auto

lemma set_sort_js: "set (sort_js cmp xs) = set xs"
  by (induction xs) (auto simp: set_insert_js)

lemma length_insert_js: "length (insert_js cmp x ys) = Suc (length ys)"
  by (induction ys) auto

lemma length_sort_js: "length (sort_js cmp xs) = length xs"
  by (induction xs) (auto simp: length_insert_js)

lemma nondecreasing_insert:
  assumes "nondecreasing ys" "distance x \<noteq> NaN" "\<forall>y\<in>set ys. distance y \<noteq> NaN"
  shows "nondecreasing (insert_js compareDistance x ys)"
  using assms
proof (induction ys)
  case Nil
  then show ?case by (simp add: nondecreasing_def)
next
  case (Cons y ys)
  show ?case
  proof (cases "positive (compareDistance x y)")
    case True
    then have yx: "num_le (distance y) (distance x)"
      using Cons.prems by (simp add: compareDistance_def positive_minus_le)
    have "nondecreasing (insert_js compareDistance x ys)"
      using Cons by (simp add: nondecreasing_def)
    then show ?thesis
      using True yx Cons.prems(1) by (auto simp: nondecreasing_def set_insert_js)
  next
    case False
    then have xy: "num_le (distance x) (distance y)"
      using Cons.prems by (simp add: compareDistance_def not_positive_minus_le)
    then show ?thesis
      using False Cons.prems(1) by (auto simp: nondecreasing_def intro: num_le_trans)
  qed
qed

lemma nondecreasing_sort:
  "\<forall>d\<in>set ds. distance d \<noteq> NaN \<Longrightarrow> nondecreasing (sort_js compareDistance ds)"
proof (induction ds)
  case Nil
  then show ?case by (simp add: nondecreasing_def)
next
  case (Cons d ds)
  then show ?case by (simp add: nondecreasing_insert set_sort_js)
qed

lemma parseDetections_sorted:
  assumes "parseDetections reading json = Inr ds"
  obtains raw where "ds = sort_js compareDistance raw"
  using assms by (auto simp: parseDetections_def split: sum.splits)


lemma stored_detections:
  assumes "parseDetections reading json = Inr ds" "ok status"
  shows "detections (captureAndSend reading True False (Responded status (Body json)) s) = ds"
    and "detections (handleSmartQuery reading True False (Responded status (Body json)) s) = ds"
  using assms
  by (simp_all add: captureAndSend_def handleSmartQuery_def enter_def settle_def detectBody_def
      queryBody_def speakAlert_def Let_def split: json.splits)

lemma map_throwing_nth:
  assumes "map_throwing f xs = Inr ys"
  shows "length ys = length xs \<and> (\<forall>i<length xs. f (xs ! i) = Inr (ys ! i))"
  using assms
proof (induction xs arbitrary: ys)
  case Nil
  then show ?case by simp
next
  case (Cons x xs)
  then obtain y ys' where y: "f x = Inr y" "map_throwing f xs = Inr ys'" "ys = y # ys'"
    by (auto split: sum.splits)
  then have "length ys' = length xs \<and> (\<forall>i<length xs. f (xs ! i) = Inr (ys' ! i))"
    using Cons.IH by simp
  then show ?case
    using y by (auto simp: nth_Cons split: nat.splits)
qed

lemma toDetection_fields:
  assumes "toDetection reading item = Inr d"
  shows "label d = coalesce (opt_member item (str ''label'')) (JStr (str ''Unknown''))"
    and "direction d = coalesce (opt_member item (str ''direction'')) (JStr (str ''center''))"
    and "risk d = coalesce (opt_member item (str ''risk'')) (JStr (str ''clear''))"
    and "toNumber reading (coalesce (opt_member item (str ''distance'')) (JNum (Fin 0))) =
           Inr (distance d)"
  using assms by (auto simp: toDetection_def split: sum.splits)

lemma toDetection_default_distance:
  assumes "opt_member item (str ''distance'') = None \<or> opt_member item (str ''distance'') = Some JNull"
  shows "\<exists>d. toDetection reading item = Inr d \<and> distance d = Val (Fin 0)"
  using assms by (auto simp: toDetection_def coalesce_def toNumber_def)

lemma toDetection_numeric_distance:
  assumes "opt_member item (str ''distance'') = Some (JNum n)"
  shows "\<exists>d. toDetection reading item = Inr d \<and> distance d = Val n"
  using assms by (auto simp: toDetection_def coalesce_def toNumber_def)

lemma parseDetections_elements:
  assumes "json \<noteq> JNull" and "member_js json (str ''objects'') = Some (JArr items)"
    and "parseDetections reading json = Inr ds" and "i < length items"
  shows "length ds = length items \<and> (\<exists>d\<in>set ds. toDetection reading (items ! i) = Inr d)"
proof -
  have g: "get_member json (str ''objects'') = Inr (Some (JArr items))"
    using assms(1,2) by (cases json) (simp_all add: get_member_def)
  then obtain raw where raw: "map_throwing (toDetection reading) items = Inr raw"
    and ds: "ds = sort_js compareDistance raw"
    using assms(3) by (auto simp: parseDetections_def objectsOf_def split: sum.splits)
  from map_throwing_nth [OF raw] assms(4)
  have l: "length raw = length items" and e: "toDetection reading (items ! i) = Inr (raw ! i)"
    by simp_all
  have "raw ! i \<in> set ds"
    using l assms(4) by (simp add: ds set_sort_js)
  then show ?thesis
    using e l by (auto simp: ds length_sort_js)
qed

text \<open>
  C7. Mapping a backend object into a detection keeps every field that is present and not
  \<^verbatim>\<open>null\<close> (a numeric distance as the number it is) and fills every field that is absent
  or \<^verbatim>\<open>null\<close> with its default: \<^verbatim>\<open>"Unknown"\<close>, \<^verbatim>\<open>0\<close>, \<^verbatim>\<open>"center"\<close>, \<^verbatim>\<open>"clear"\<close>. The mapping
  returns whenever the distance is absent, \<^verbatim>\<open>null\<close> or a number, and every element of the
  \<^verbatim>\<open>objects\<close> array appears so mapped in the parsed list. In particular the response
  \<^verbatim>\<open>{"objects":[{}]}\<close> is parsed into the one detection
  \<^verbatim>\<open>{label:"Unknown", distance:0, direction:"center", risk:"clear"}\<close>, and that list is what
  both \<^verbatim>\<open>captureAndSend\<close> and \<^verbatim>\<open>handleSmartQuery\<close> store.
\<close>

theorem default_filling:
  "parseDetections reading (JObj [(str ''objects'', JArr [JObj []])]) =
     Inr [\<lparr>label = JStr (str ''Unknown''), distance = Val (Fin 0),
           direction = JStr (str ''center''), risk = JStr (str ''clear'')\<rparr>]
   \<and> detections (captureAndSend reading True False
        (Responded 200 (Body (JObj [(str ''objects'', JArr [JObj []])]))) s) =
     [\<lparr>label = JStr (str ''Unknown''), distance = Val (Fin 0),
           direction = JStr (str ''center''), risk = JStr (str ''clear'')\<rparr>]
   \<and> detections (handleSmartQuery reading True False
        (Responded 200 (Body (JObj [(str ''objects'', JArr [JObj []])]))) s) =
     [\<lparr>label = JStr (str ''Unknown''), distance = Val (Fin 0),
           direction = JStr (str ''center''), risk = JStr (str ''clear'')\<rparr>]
   \<and> (toDetection reading item = Inr d \<longrightarrow>
         (opt_member item (str ''label'') = None \<or> opt_member item (str ''label'') = Some JNull
            \<longrightarrow> label d = JStr (str ''Unknown''))
       \<and> (\<forall>v. opt_member item (str ''label'') = Some v \<and> v \<noteq> JNull \<longrightarrow> label d = v)
       \<and> (opt_member item (str ''direction'') = None
            \<or> opt_member item (str ''direction'') = Some JNull
            \<longrightarrow> direction d = JStr (str ''center''))
       \<and> (\<forall>v. opt_member item (str ''direction'') = Some v \<and> v \<noteq> JNull \<longrightarrow> direction d = v)
       \<and> (opt_member item (str ''risk'') = None \<or> opt_member item (str ''risk'') = Some JNull
            \<longrightarrow> risk d = JStr (str ''clear''))
       \<and> (\<forall>v. opt_member item (str ''risk'') = Some v \<and> v \<noteq> JNull \<longrightarrow> risk d = v)
       \<and> (opt_member item (str ''distance'') = None
            \<or> opt_member item (str ''distance'') = Some JNull
            \<longrightarrow> distance d = Val (Fin 0))
       \<and> (\<forall>n. opt_member item (str ''distance'') = Some (JNum n) \<longrightarrow> distance d = Val n))
   \<and> (opt_member item (str ''distance'') = None
        \<or> opt_member item (str ''distance'') = Some JNull
        \<or> (\<exists>n. opt_member item (str ''distance'') = Some (JNum n))
        \<longrightarrow> (\<exists>d'. toDetection reading item = Inr d'))
   \<and> (json \<noteq> JNull \<and> member_js json (str ''objects'') = Some (JArr items)
        \<and> parseDetections reading json = Inr ds \<and> i < length items
        \<longrightarrow> length ds = length items
          \<and> (\<exists>d'\<in>set ds. toDetection reading (items ! i) = Inr d'))"
proof -
  have p: "parseDetections reading (JObj [(str ''objects'', JArr [JObj []])]) =
     Inr [\<lparr>label = JStr (str ''Unknown''), distance = Val (Fin 0),
           direction = JStr (str ''center''), risk = JStr (str ''clear'')\<rparr>]"
    by (simp add: parseDetections_def get_member_def objectsOf_def toDetection_def
        opt_member_def coalesce_def toNumber_def str_def)
  have a: "member_js (JObj [(str ''objects'', JArr [JObj []])]) (str ''alert_text'') = None"
    "member_js (JObj [(str ''objects'', JArr [JObj []])]) (str ''answer_text'') = None"
    by (simp_all add: str_def)
  have concrete:
    "detections (captureAndSend reading True False
        (Responded 200 (Body (JObj [(str ''objects'', JArr [JObj []])]))) s) =
     [\<lparr>label = JStr (str ''Unknown''), distance = Val (Fin 0),
           direction = JStr (str ''center''), risk = JStr (str ''clear'')\<rparr>]"
    "detections (handleSmartQuery reading True False
        (Responded 200 (Body (JObj [(str ''objects'', JArr [JObj []])]))) s) =
     [\<lparr>label = JStr (str ''Unknown''), distance = Val (Fin 0),
           direction = JStr (str ''center''), risk = JStr (str ''clear'')\<rparr>]"
    by (simp_all add: p a captureAndSend_def handleSmartQuery_def enter_def settle_def ok_def
        detectBody_def queryBody_def speakAlert_def coalesce_def Let_def trim_def)
  have fields: "(opt_member item (str ''label'') = None \<or> opt_member item (str ''label'') = Some JNull
            \<longrightarrow> label d = JStr (str ''Unknown''))
       \<and> (\<forall>v. opt_member item (str ''label'') = Some v \<and> v \<noteq> JNull \<longrightarrow> label d = v)
       \<and> (opt_member item (str ''direction'') = None
            \<or> opt_member item (str ''direction'') = Some JNull
            \<longrightarrow> direction d = JStr (str ''center''))
       \<and> (\<forall>v. opt_member item (str ''direction'') = Some v \<and> v \<noteq> JNull \<longrightarrow> direction d = v)
       \<and> (opt_member item (str ''risk'') = None \<or> opt_member item (str ''risk'') = Some JNull
            \<longrightarrow> risk d = JStr (str ''clear''))
       \<and> (\<forall>v. opt_member item (str ''risk'') = Some v \<and> v \<noteq> JNull \<longrightarrow> risk d = v)
       \<and> (opt_member item (str ''distance'') = None
            \<or> opt_member item (str ''distance'') = Some JNull
            \<longrightarrow> distance d = Val (Fin 0))
       \<and> (\<forall>n. opt_member item (str ''distance'') = Some (JNum n) \<longrightarrow> distance d = Val n)"
    if t: "toDetection reading item = Inr d"
    using toDetection_fields [OF t]
    by (auto simp: coalesce_def toNumber_def split: json.splits)
  have returns: "\<exists>d'. toDetection reading item = Inr d'"
    if "opt_member item (str ''distance'') = None
        \<or> opt_member item (str ''distance'') = Some JNull
        \<or> (\<exists>n. opt_member item (str ''distance'') = Some (JNum n))"
    using that toDetection_default_distance [of item reading]
      toDetection_numeric_distance [of item _ reading]
    by blast
  have elems: "length ds = length items
          \<and> (\<exists>d'\<in>set ds. toDetection reading (items ! i) = Inr d')"
    if "json \<noteq> JNull \<and> member_js json (str ''objects'') = Some (JArr items)
        \<and> parseDetections reading json = Inr ds \<and> i < length items"
    using that parseDetections_elements [of json items reading ds i] by blast
  show ?thesis
    using p concrete fields returns elems by blast
qed

lemma chair_item:
  "toDetection unreadable (JObj [(str ''label'', JStr (str ''chair''))]) =
     Inr \<lparr>label = JStr (str ''chair''), distance = Val (Fin 0),
          direction = JStr (str ''center''), risk = JStr (str ''clear'')\<rparr>"
  by (simp add: toDetection_def opt_member_def coalesce_def toNumber_def str_def)

theorem default_filling_witness:
  "label \<lparr>label = JStr (str ''chair''), distance = Val (Fin 0),
          direction = JStr (str ''center''), risk = JStr (str ''clear'')\<rparr> = JStr (str ''chair'')
   \<and> direction \<lparr>label = JStr (str ''chair''), distance = Val (Fin 0),
          direction = JStr (str ''center''), risk = JStr (str ''clear'')\<rparr> = JStr (str ''center'')
   \<and> toDetection unreadable (JObj [(str ''label'', JStr (str ''chair''))]) =
     Inr \<lparr>label = JStr (str ''chair''), distance = Val (Fin 0),
          direction = JStr (str ''center''), risk = JStr (str ''clear'')\<rparr>"
proof -
  let ?item = "JObj [(str ''label'', JStr (str ''chair''))]"
  let ?d = "\<lparr>label = JStr (str ''chair''), distance = Val (Fin 0),
          direction = JStr (str ''center''), risk = JStr (str ''clear'')\<rparr>"
  have l: "opt_member ?item (str ''label'') = Some (JStr (str ''chair''))"
    "JStr (str ''chair'') \<noteq> JNull"
    and r: "opt_member ?item (str ''direction'') = None"
    by (simp_all add: opt_member_def str_def)
  note df = default_filling [of unreadable _ ?item ?d]
  from df chair_item l have kept: "label ?d = JStr (str ''chair'')"
    by blast
  from df chair_item r have filled: "direction ?d = JStr (str ''center'')"
    by blast
  show ?thesis
    by (intro conjI) (rule kept, rule filled, rule chair_item)
qed

text \<open>
  C6 (amended). Whenever a response is parsed into a detection list in which no distance is
  NaN (every \<^verbatim>\<open>distance\<close> absent, \<^verbatim>\<open>null\<close>, a number, or something \<^verbatim>\<open>Number\<close> reads as a
  number), the list is non-decreasing in distance. By \<open>stored_detections\<close> that list is
  what \<^verbatim>\<open>setDetections\<close> stores.
\<close>

theorem sorted_detections:
  assumes "parseDetections reading json = Inr ds" and "\<forall>d\<in>set ds. distance d \<noteq> NaN"
  shows "nondecreasing ds"
proof -
  obtain raw where raw: "ds = sort_js compareDistance raw"
    using assms(1) by (rule parseDetections_sorted)
  then have "\<forall>d\<in>set raw. distance d \<noteq> NaN"
    using assms(2) by (simp add: set_sort_js)
  then show ?thesis
    unfolding raw by (rule nondecreasing_sort)
qed

lemma three_objects:
  "parseDetections unreadable
     (JObj [(str ''objects'',
        JArr [JObj [(str ''distance'', JNum (Fin 3))], JObj [],
              JObj [(str ''distance'', JNum (Fin 1))]])]) =
   Inr [\<lparr>label = JStr (str ''Unknown''), distance = Val (Fin 0),
          direction = JStr (str ''center''), risk = JStr (str ''clear'')\<rparr>,
        \<lparr>label = JStr (str ''Unknown''), distance = Val (Fin 1),
          direction = JStr (str ''center''), risk = JStr (str ''clear'')\<rparr>,
        \<lparr>label = JStr (str ''Unknown''), distance = Val (Fin 3),
          direction = JStr (str ''center''), risk = JStr (str ''clear'')\<rparr>]"
  by (simp add: parseDetections_def get_member_def objectsOf_def toDetection_def
      opt_member_def coalesce_def toNumber_def compareDistance_def str_def)

theorem sorted_detections_witness:
  "nondecreasing
     [\<lparr>label = JStr (str ''Unknown''), distance = Val (Fin 0),
          direction = JStr (str ''center''), risk = JStr (str ''clear'')\<rparr>,
      \<lparr>label = JStr (str ''Unknown''), distance = Val (Fin 1),
          direction = JStr (str ''center''), risk = JStr (str ''clear'')\<rparr>,
      \<lparr>label = JStr (str ''Unknown''), distance = Val (Fin 3),
          direction = JStr (str ''center''), risk = JStr (str ''clear'')\<rparr>]"
  by (rule sorted_detections [OF three_objects]) simp

lemma nan_objects:
  "parseDetections unreadable
     (JObj [(str ''objects'', JArr [JObj [(str ''distance'', JObj [])], JObj []])]) =
   Inr [\<lparr>label = JStr (str ''Unknown''), distance = NaN,
          direction = JStr (str ''center''), risk = JStr (str ''clear'')\<rparr>,
        \<lparr>label = JStr (str ''Unknown''), distance = Val (Fin 0),
          direction = JStr (str ''center''), risk = JStr (str ''clear'')\<rparr>]"
  by (simp add: parseDetections_def get_member_def objectsOf_def toDetection_def
      opt_member_def coalesce_def toNumber_def compareDistance_def str_def)

text \<open>
  C6 as stated fails: for \<^verbatim>\<open>{"objects":[{"distance":{}},{}]}\<close> the first distance is
  \<^verbatim>\<open>Number({})\<close>, which is NaN, the comparator returns NaN, and the stored list holds a
  NaN distance next to \<open>0\<close>. Neither order of the two elements is non-decreasing.
\<close>

theorem nan_distance_counterexample:
  "\<not> nondecreasing
       (detections
          (captureAndSend unreadable True False
             (Responded 200
                (Body (JObj [(str ''objects'', JArr [JObj [(str ''distance'', JObj [])], JObj []])])))
             idle))
   \<and> \<not> nondecreasing
       (rev (detections
          (captureAndSend unreadable True False
             (Responded 200
                (Body (JObj [(str ''objects'', JArr [JObj [(str ''distance'', JObj [])], JObj []])])))
             idle)))"
  by (simp add: stored_detections(1) [OF nan_objects] ok_def nondecreasing_def)

text \<open>
  C1 as stated fails: for the response \<^verbatim>\<open>{}\<close>, which has no \<^verbatim>\<open>answer_text\<close>,
  \<^verbatim>\<open>handleSmartQuery\<close> does not store the empty string.
\<close>

theorem answer_fallback_counterexample:
  "alertText (handleSmartQuery unreadable True False (Responded 200 (Body (JObj []))) idle)
     \<noteq> JStr []"
  by (simp add: handleSmartQuery_def enter_def settle_def ok_def queryBody_def
      parseDetections_def get_member_def objectsOf_def coalesce_def speakAlert_def Let_def
      trim_def questionToSend_nonempty)

lemma speakAlert_spoken:
  "spoken (speakAlert t s) =
     (if falsy t then spoken s else spoken s @ [SpeechStop, SpeechSpeak t])"
  by (simp add: speakAlert_def)

lemma not_falsy_question: "\<not> falsy (JStr (questionToSend q))"
  by (simp add: falsy_def questionToSend_nonempty)

text \<open>
  C1 (amended). When the smart query's response is parsed into detections and has no
  \<^verbatim>\<open>answer_text\<close>, a \<^verbatim>\<open>null\<close> one, or one that is empty after trimming, \<^verbatim>\<open>alertText\<close> is
  set to the question that was sent
  (\<^verbatim>\<open>answer || questionToSend\<close>), which is never empty, and that question is spoken. For
  every call of \<^verbatim>\<open>handleSmartQuery\<close>, speech is requested only for the stored text and only
  when it is non-empty.
\<close>

theorem answer_fallback:
  assumes "ok status" and "parseDetections reading json = Inr ds"
    and "member_js json (str ''answer_text'') = None
         \<or> member_js json (str ''answer_text'') = Some JNull
         \<or> (\<exists>t. member_js json (str ''answer_text'') = Some (JStr t) \<and> trim t = [])"
  shows "handleSmartQuery reading True False (Responded status (Body json)) s =
           s\<lparr>error := Text [], isSending := False, detections := ds,
             alertText := JStr (questionToSend (userQuestion s)),
             spoken := spoken s @ [SpeechStop, SpeechSpeak (JStr (questionToSend (userQuestion s)))]\<rparr>
         \<and> questionToSend (userQuestion s) \<noteq> []
         \<and> (spoken (handleSmartQuery reading cam sending out s) = spoken s
            \<or> (spoken (handleSmartQuery reading cam sending out s) =
                 spoken s @
                   [SpeechStop, SpeechSpeak (alertText (handleSmartQuery reading cam sending out s))]
               \<and> \<not> falsy (alertText (handleSmartQuery reading cam sending out s))))"
proof (intro conjI)
  have c: "coalesce (member_js json (str ''answer_text'')) (JStr []) = JStr []
           \<or> (\<exists>t. coalesce (member_js json (str ''answer_text'')) (JStr []) = JStr t \<and> trim t = [])"
    using assms(3) by (auto simp: coalesce_def)
  then show "handleSmartQuery reading True False (Responded status (Body json)) s =
           s\<lparr>error := Text [], isSending := False, detections := ds,
             alertText := JStr (questionToSend (userQuestion s)),
             spoken := spoken s @ [SpeechStop, SpeechSpeak (JStr (questionToSend (userQuestion s)))]\<rparr>"
    using assms(1,2)
    by (auto simp: handleSmartQuery_def enter_def settle_def queryBody_def speakAlert_def
        not_falsy_question Let_def trim_def)
  show "questionToSend (userQuestion s) \<noteq> []"
    by (rule questionToSend_nonempty)
  show "spoken (handleSmartQuery reading cam sending out s) = spoken s
         \<or> (spoken (handleSmartQuery reading cam sending out s) =
              spoken s @ [SpeechStop, SpeechSpeak (alertText (handleSmartQuery reading cam sending out s))]
            \<and> \<not> falsy (alertText (handleSmartQuery reading cam sending out s)))"
    by (auto simp: handleSmartQuery_def enter_def settle_def queryBody_def speakAlert_def
        Let_def split: outcome.splits body.splits sum.splits json.splits option.splits)
qed

lemma empty_body_objects: "parseDetections reading (JObj []) = Inr []"
  by (simp add: parseDetections_def get_member_def objectsOf_def)

theorem answer_fallback_witness:
  "handleSmartQuery unreadable True False (Responded 200 (Body (JObj []))) idle =
     idle\<lparr>alertText := JStr defaultQuestion,
          spoken := [SpeechStop, SpeechSpeak (JStr defaultQuestion)]\<rparr>"
proof -
  have "ok 200" by (simp add: ok_def)
  moreover have "member_js (JObj []) (str ''answer_text'') = None
         \<or> member_js (JObj []) (str ''answer_text'') = Some JNull
         \<or> (\<exists>t. member_js (JObj []) (str ''answer_text'') = Some (JStr t) \<and> trim t = [])"
    by simp
  ultimately show ?thesis
    using answer_fallback [of 200 unreadable "JObj []" "[]" idle] empty_body_objects
    by (simp add: idle_def questionToSend_def trim_def)
qed

text \<open>
  C8 at the response body \<^verbatim>\<open>null\<close> with status 200: \<^verbatim>\<open>json.objects\<close> throws, the cycle ends
  in the \<^verbatim>\<open>catch\<close> branch with \<^verbatim>\<open>error\<close> set, and \<^verbatim>\<open>detections\<close> is left as it was
  instead of becoming empty. For every other JSON value without an \<^verbatim>\<open>objects\<close> array
  the parse gives the empty list (\<open>tolerant_objects\<close>, stated after it).
\<close>

theorem null_body_fails:
  "captureAndSend reading True False (Responded 200 (Body JNull)) s =
     s\<lparr>error := TypeErrorText, isSending := False\<rparr>"
  by (simp add: captureAndSend_def enter_def settle_def ok_def detectBody_def
      parseDetections_def get_member_def errorMessage_def)

lemma tolerant_objects:
  assumes "json \<noteq> JNull" and "\<forall>xs. member_js json (str ''objects'') \<noteq> Some (JArr xs)"
  shows "parseDetections reading json = Inr []"
  using assms
  by (cases json)
     (auto simp: parseDetections_def get_member_def objectsOf_def split: option.splits json.splits)

section \<open>Properties of the detection loop\<close>

text \<open>
  The loop's two steps for one call, taken one after the other, are \<^verbatim>\<open>captureAndSend\<close> as a
  whole; likewise the button's press and the end of its call are \<^verbatim>\<open>handleSmartQuery\<close>.
\<close>

lemma cycle_is_captureAndSend:
  assumes "\<not> cancelled (closures s i)" and "camera s" and "\<not> sawSending (closures s i)"
  shows "ui (settleCall reading (length (inflight s)) out (runCycle i s)) =
           captureAndSend reading (camera s) (sawSending (closures s i)) out (ui s)"
  using assms
  by (auto simp: runCycle_def enter_def captureAndSend_def settleCall_def Let_def rearm_def
      nth_append split: option.splits)

lemma query_is_handleSmartQuery:
  assumes "camera s" and "\<not> isSending (ui s)"
  shows "ui (settleCall reading (length (inflight s)) out (pressSmartQuery s)) =
           handleSmartQuery reading (camera s) (isSending (ui s)) out (ui s)"
  using assms
  by (auto simp: pressSmartQuery_def enter_def handleSmartQuery_def settleCall_def Let_def
      nth_append)

lemma settle_isDetecting:
  "isDetecting (settle (detectBody reading) out u) = isDetecting u"
  "isDetecting (settle (queryBody reading sent) out u) = isDetecting u"
  by (auto simp: settle_def detectBody_def queryBody_def speakAlert_def Let_def
      split: outcome.splits body.splits sum.splits json.splits option.splits)

lemma settle_isSending: "isSending (settle parse out u) = False"
  by (simp add: settle_def Let_def split: prod.splits)

lemma loop_inv_mounted: "loop_inv mounted"
  by (simp add: loop_inv_def mounted_def idle_def granted_def)

lemma loop_inv_camera: "loop_inv s \<Longrightarrow> loop_inv (s\<lparr>camera := b\<rparr>)"
  by (simp add: loop_inv_def granted_def)

lemma loop_inv_settle:
  assumes "loop_inv s"
  shows "loop_inv (settleCall reading k out s)"
proof (cases "k < length (inflight s)")
  case False
  then show ?thesis using assms by (simp add: settleCall_def)
next
  case True
  then obtain c where c: "inflight s = [c]" and k: "k = 0"
    using assms by (cases "inflight s") (auto simp: loop_inv_def)
  obtain i where i: "awaitedBy c = Some i" "i < nextInstance s" and kd: "kind_of c = Detect"
    using assms c by (auto simp: loop_inv_def)
  show ?thesis
  proof (cases "cleanup s = Some i")
    case True
    then have t: "timers s = []"
      using assms c i by (auto simp: loop_inv_def)
    show ?thesis
      using assms c k i kd True t
      by (auto simp: loop_inv_def settleCall_def rearm_def Let_def settle_isDetecting
          settle_isSending granted_def)
  next
    case False
    then have "cancelled (closures s i)"
      using assms i by (auto simp: loop_inv_def)
    then show ?thesis
      using assms c k i kd
      by (auto simp: loop_inv_def settleCall_def rearm_def Let_def settle_isDetecting
          settle_isSending granted_def)
  qed
qed


lemma loop_inv_fire:
  assumes "loop_inv s"
  shows "loop_inv (fire t s)"
proof (cases "find (\<lambda>x. tid x = t) (timers s)")
  case None
  then show ?thesis using assms by (simp add: fire_def)
next
  case (Some x)
  then have xt: "tid x = t" and xin: "x \<in> set (timers s)"
    by (auto simp: find_Some_iff)
  then have ts: "timers s = [x]"
    using assms by (cases "timers s") (auto simp: loop_inv_def)
  have live: "cleanup s = Some (instance_of x)" "loopRef s = Some t"
    "\<not> cancelled (closures s (instance_of x))" "sawDetecting (closures s (instance_of x))"
    "instance_of x < nextInstance s"
    using assms ts xt by (auto simp: loop_inv_def)
  have idle: "\<not> sawSending (closures s (instance_of x)) \<Longrightarrow> inflight s = []"
    using assms ts live(1) by (auto simp: loop_inv_def)
  have notmine: "\<forall>c\<in>set (inflight s). awaitedBy c \<noteq> Some (instance_of x)"
    using assms ts live(1) by (auto simp: loop_inv_def)
  show ?thesis
  proof (cases "camera s \<and> \<not> sawSending (closures s (instance_of x))")
    case True
    then have "inflight s = []" using idle by simp
    then show ?thesis
      using assms Some ts xt live True
      by (auto simp: loop_inv_def fire_def runCycle_def enter_def granted_def)
  next
    case False
    then show ?thesis
      using assms Some ts xt live idle notmine
      by (auto simp: loop_inv_def fire_def runCycle_def enter_def rearm_def granted_def)
  qed
qed


lemma timers_clearLoopTimer:
  "\<forall>x\<in>set (timers s). loopRef s = Some (tid x) \<Longrightarrow> timers (clearLoopTimer s) = []"
  by (cases "timers s") (auto simp: clearLoopTimer_def filter_empty_conv split: option.splits)

lemma clearLoopTimer_fields:
  "ui (clearLoopTimer s) = ui s" "camera (clearLoopTimer s) = camera s"
  "permission (clearLoopTimer s) = permission s" "closures (clearLoopTimer s) = closures s"
  "nextInstance (clearLoopTimer s) = nextInstance s" "cleanup (clearLoopTimer s) = cleanup s"
  "inflight (clearLoopTimer s) = inflight s" "shots (clearLoopTimer s) = shots s"
  "nextTimer (clearLoopTimer s) = nextTimer s"
  by (simp_all add: clearLoopTimer_def split: option.splits)

lemma runCleanup_fields:
  "ui (runCleanup s) = ui s" "camera (runCleanup s) = camera s"
  "permission (runCleanup s) = permission s"
  "nextInstance (runCleanup s) = nextInstance s" "cleanup (runCleanup s) = None"
  "inflight (runCleanup s) = inflight s" "shots (runCleanup s) = shots s"
  "nextTimer (runCleanup s) = nextTimer s"
  "closures (runCleanup s) =
     (case cleanup s of None \<Rightarrow> closures s
      | Some i \<Rightarrow> (closures s)(i := (closures s i)\<lparr>cancelled := True\<rparr>))"
  by (simp_all add: runCleanup_def clearLoopTimer_fields split: option.splits)

lemma timers_runCleanup:
  assumes "\<forall>x\<in>set (timers s). loopRef s = Some (tid x) \<and> cleanup s = Some (instance_of x)"
  shows "timers (runCleanup s) = []"
proof (cases "cleanup s")
  case None
  then have "timers s = []" using assms by (cases "timers s") auto
  then show ?thesis using None by (simp add: runCleanup_def)
next
  case (Some i)
  then show ?thesis
    using assms by (simp add: runCleanup_def timers_clearLoopTimer)
qed

lemma cancelled_runCleanup:
  assumes "\<forall>i<nextInstance s. cleanup s \<noteq> Some i \<longrightarrow> cancelled (closures s i)"
    and "i < nextInstance s"
  shows "cancelled (closures (runCleanup s) i)"
  using assms by (auto simp: runCleanup_fields split: option.splits)

lemma loop_inv_loopEffect:
  assumes "loop_inv s" and "d \<longrightarrow> p = Some True"
  shows "loop_inv (loopEffect (s\<lparr>ui := (ui s)\<lparr>isDetecting := d\<rparr>, permission := p\<rparr>))"
proof -
  define s' where "s' = s\<lparr>ui := (ui s)\<lparr>isDetecting := d\<rparr>, permission := p\<rparr>"
  define r where "r = runCleanup s'"
  have t: "timers r = []"
    unfolding r_def using assms(1) by (intro timers_runCleanup) (auto simp: s'_def loop_inv_def)
  have c: "\<forall>i<nextInstance r. cancelled (closures r i)"
  proof (intro allI impI)
    fix i
    assume "i < nextInstance r"
    then have "i < nextInstance s'"
      by (simp add: r_def runCleanup_fields)
    moreover have "\<forall>i<nextInstance s'. cleanup s' \<noteq> Some i \<longrightarrow> cancelled (closures s' i)"
      using assms(1) by (simp add: s'_def loop_inv_def)
    ultimately show "cancelled (closures r i)"
      unfolding r_def by (rule cancelled_runCleanup [rotated])
  qed
  have f: "ui r = (ui s)\<lparr>isDetecting := d\<rparr>" "permission r = p" "nextInstance r = nextInstance s"
    "cleanup r = None" "inflight r = inflight s" "camera r = camera s"
    by (simp_all add: r_def s'_def runCleanup_fields)
  have a: "length (inflight s) \<le> 1" "isSending (ui s) \<longleftrightarrow> inflight s \<noteq> []"
    "\<forall>c\<in>set (inflight s). kind_of c = Detect \<and> (\<exists>i<nextInstance s. awaitedBy c = Some i)"
    using assms(1) by (auto simp: loop_inv_def)
  show ?thesis
  proof (cases "d \<and> p = Some True")
    case False
    then have "loopEffect s' = clearLoopTimer r"
      by (simp add: loopEffect_def r_def [symmetric] f granted_def Let_def)
    moreover have "timers (clearLoopTimer r) = []"
      using t by (simp add: timers_clearLoopTimer)
    ultimately show ?thesis
      unfolding s'_def [symmetric]
      using a c f False assms(2)
      by (auto simp: loop_inv_def clearLoopTimer_fields granted_def)
  next
    case True
    then have le: "loopEffect s' =
        runCycle (nextInstance r)
          (r\<lparr>closures := (closures r)
                (nextInstance r := \<lparr>sawSending = isSending (ui r), sawDetecting = isDetecting (ui r),
                       cancelled = False\<rparr>),
            nextInstance := nextInstance r + 1,
            cleanup := Some (nextInstance r)\<rparr>)"
      by (simp add: loopEffect_def r_def [symmetric] f granted_def Let_def)
    show ?thesis
      unfolding s'_def [symmetric] le
      using a c f t True
      by (auto simp: loop_inv_def runCycle_def enter_def rearm_def granted_def less_Suc_eq)
  qed
qed


lemma loop_inv_render:
  assumes "loop_inv s"
  shows "loop_inv (render s (s\<lparr>ui := (ui s)\<lparr>isDetecting := d\<rparr>, permission := p\<rparr>))"
proof -
  define d' where "d' = (d \<and> p = Some True)"
  define s0 where "s0 = s\<lparr>ui := (ui s)\<lparr>isDetecting := d\<rparr>, permission := p\<rparr>"
  define n where "n = s\<lparr>ui := (ui s)\<lparr>isDetecting := d'\<rparr>, permission := p\<rparr>"
  have norm: "(if \<not> granted s0 \<and> isDetecting (ui s0)
               then s0\<lparr>ui := (ui s0)\<lparr>isDetecting := False\<rparr>\<rparr> else s0) = n"
    by (cases s) (auto simp: s0_def n_def d'_def granted_def)
  have nf: "isDetecting (ui n) = d'" "granted n = (p = Some True)"
    by (simp_all add: n_def granted_def)
  have r: "render s s0 =
           (if (d', p = Some True) \<noteq> (isDetecting (ui s), granted s) then loopEffect n else n)"
    unfolding render_def norm Let_def nf by simp
  have "loop_inv (loopEffect n)"
    unfolding n_def using assms by (rule loop_inv_loopEffect) (simp add: d'_def)
  moreover have "loop_inv n" if "d' = isDetecting (ui s)" "(p = Some True) = granted s"
    using assms that by (auto simp: loop_inv_def n_def granted_def)
  ultimately show ?thesis
    unfolding s0_def [symmetric] r by auto
qed

lemma loop_inv_toggle:
  assumes "loop_inv s"
  shows "loop_inv (handleToggleDetection answer s)"
proof -
  have a: "s\<lparr>permission := Some answer\<rparr> =
           s\<lparr>ui := (ui s)\<lparr>isDetecting := isDetecting (ui s)\<rparr>, permission := Some answer\<rparr>"
    by simp
  have b: "toggled (s\<lparr>permission := Some True\<rparr>) =
           s\<lparr>ui := (ui s)\<lparr>isDetecting := \<not> isDetecting (ui s)\<rparr>, permission := Some True\<rparr>"
    by (cases s) (simp add: toggled_def)
  have c: "toggled s =
           s\<lparr>ui := (ui s)\<lparr>isDetecting := \<not> isDetecting (ui s)\<rparr>, permission := permission s\<rparr>"
    by (simp add: toggled_def)
  have 1: "loop_inv (render s (s\<lparr>permission := Some answer\<rparr>))"
    unfolding a using assms by (rule loop_inv_render)
  have 2: "loop_inv (render s (toggled (s\<lparr>permission := Some True\<rparr>)))"
    unfolding b using assms by (rule loop_inv_render)
  have 3: "loop_inv (render s (toggled s))"
    unfolding c using assms by (rule loop_inv_render)
  show ?thesis
    using assms 1 2 3 by (cases answer) (auto simp: handleToggleDetection_def split: option.splits bool.splits)
qed

lemma loop_inv_permission:
  assumes "loop_inv s"
  shows "loop_inv (render s (s\<lparr>permission := Some b\<rparr>))"
proof -
  have a: "s\<lparr>permission := Some b\<rparr> =
           s\<lparr>ui := (ui s)\<lparr>isDetecting := isDetecting (ui s)\<rparr>, permission := Some b\<rparr>"
    by simp
  show ?thesis
    unfolding a using assms by (rule loop_inv_render)
qed

lemma loop_inv_step: "loop_inv s \<Longrightarrow> loop_inv (step reading e s)"
  by (cases e)
     (simp_all add: loop_inv_toggle loop_inv_permission loop_inv_camera loop_inv_fire
        loop_inv_settle)

lemma loop_inv_run: "loop_inv s \<Longrightarrow> loop_inv (run reading evs s)"
  by (induction evs arbitrary: s) (simp_all add: loop_inv_step)

lemma loop_inv_reachable: "loop_inv (run reading evs mounted)"
  by (rule loop_inv_run [OF loop_inv_mounted])


lemma rearm_fields:
  "ui (rearm i s) = ui s" "inflight (rearm i s) = inflight s" "shots (rearm i s) = shots s"
  "closures (rearm i s) = closures s" "camera (rearm i s) = camera s"
  by (simp_all add: rearm_def)

lemma runCycle_guarded:
  assumes "\<not> camera s \<or> sawSending (closures s i)"
  shows "ui (runCycle i s) = ui s" "inflight (runCycle i s) = inflight s"
    "shots (runCycle i s) = shots s"
  using assms by (auto simp: runCycle_def enter_def rearm_fields)

lemma loopEffect_guarded:
  assumes "isSending (ui s) \<or> \<not> camera s"
  shows "ui (loopEffect s) = ui s" "inflight (loopEffect s) = inflight s"
    "shots (loopEffect s) = shots s"
  using assms
  by (auto simp: loopEffect_def Let_def runCleanup_fields clearLoopTimer_fields runCycle_guarded)

lemma render_guarded:
  assumes "isSending (ui s0) \<or> \<not> camera s0"
  shows "(ui (render old s0))\<lparr>isDetecting := b\<rparr> = (ui s0)\<lparr>isDetecting := b\<rparr>"
    "inflight (render old s0) = inflight s0" "shots (render old s0) = shots s0"
  using assms by (auto simp: render_def Let_def loopEffect_guarded)

lemma toggle_guarded:
  assumes "isSending (ui s) \<or> \<not> camera s"
  shows "(ui (handleToggleDetection a s))\<lparr>isDetecting := b\<rparr> = (ui s)\<lparr>isDetecting := b\<rparr>"
    "inflight (handleToggleDetection a s) = inflight s"
    "shots (handleToggleDetection a s) = shots s"
  using assms
  by (auto simp: handleToggleDetection_def render_guarded toggled_def
      split: option.splits bool.splits)

lemma fire_guarded:
  assumes "loop_inv s" and "isSending (ui s) \<or> \<not> camera s"
  shows "ui (fire t s) = ui s" "inflight (fire t s) = inflight s" "shots (fire t s) = shots s"
proof -
  have "ui (fire t s) = ui s \<and> inflight (fire t s) = inflight s \<and> shots (fire t s) = shots s"
  proof (cases "find (\<lambda>x. tid x = t) (timers s)")
    case None
    then show ?thesis by (simp add: fire_def)
  next
    case (Some x)
    then have xin: "x \<in> set (timers s)"
      by (auto simp: find_Some_iff)
    then have live: "cleanup s = Some (instance_of x)" and ne: "timers s \<noteq> []"
      using assms(1) by (auto simp: loop_inv_def)
    have "\<not> camera s \<or> sawSending (closures s (instance_of x))"
      using assms live ne by (auto simp: loop_inv_def)
    then show ?thesis
      using Some by (simp add: fire_def runCycle_guarded)
  qed
  then show "ui (fire t s) = ui s" "inflight (fire t s) = inflight s"
    "shots (fire t s) = shots s"
    by simp_all
qed

text \<open>
  C2. In every state the screen of \<^verbatim>\<open>app/(tabs)/index.tsx\<close> reaches, whatever the presses,
  permission changes, timeouts and collaborator answers and their order, at most one
  capture-and-request is outstanding. And while one is outstanding (\<^verbatim>\<open>isSending\<close> is true)
  or the camera is missing, no event but the completion of the outstanding call starts a
  capture or changes the screen state, apart from the \<^verbatim>\<open>isDetecting\<close> switch itself: a
  cycle invoked then returns at its guard.
\<close>

theorem single_flight:
  assumes "s = run reading evs mounted"
  shows "length (inflight s) \<le> 1
       \<and> (\<forall>e. (\<forall>k out. e \<noteq> Settle k out) \<and> (isSending (ui s) \<or> \<not> camera s) \<longrightarrow>
              inflight (step reading e s) = inflight s
            \<and> shots (step reading e s) = shots s
            \<and> (ui (step reading e s))\<lparr>isDetecting := isDetecting (ui s)\<rparr> = ui s)"
proof -
  have inv: "loop_inv s"
    unfolding assms by (rule loop_inv_reachable)
  then have "length (inflight s) \<le> 1"
    by (simp add: loop_inv_def)
  moreover have "inflight (step reading e s) = inflight s
            \<and> shots (step reading e s) = shots s
            \<and> (ui (step reading e s))\<lparr>isDetecting := isDetecting (ui s)\<rparr> = ui s"
    if "\<forall>k out. e \<noteq> Settle k out" and g: "isSending (ui s) \<or> \<not> camera s" for e
  proof (cases e)
    case (Toggle a)
    then show ?thesis using g by (simp add: toggle_guarded)
  next
    case (Permission b)
    then show ?thesis using g by (simp add: render_guarded)
  next
    case (Camera b)
    then show ?thesis by simp
  next
    case (TimerFire t)
    then show ?thesis using inv g by (simp add: fire_guarded)
  next
    case (Settle k out)
    then show ?thesis using that(1) by simp
  qed
  ultimately show ?thesis by blast
qed

lemma waiting_run:
  "run unreadable [Permission True, Toggle False] mounted =
     mounted\<lparr>ui := idle\<lparr>isDetecting := True\<rparr>, permission := Some True,
       closures := (closures mounted)
          (0 := \<lparr>sawSending = False, sawDetecting = True, cancelled = False\<rparr>),
       nextInstance := 1, cleanup := Some 0, loopRef := Some 1,
       timers := [\<lparr>tid = 1, instance_of = 0, delay = 1500\<rparr>], nextTimer := 2\<rparr>"
  by (simp add: handleToggleDetection_def render_def loopEffect_def runCleanup_def
      clearLoopTimer_def runCycle_def rearm_def enter_def granted_def toggled_def mounted_def
      idle_def Let_def)

theorem single_flight_witness:
  "length (inflight (run unreadable [Permission True, Toggle False] mounted)) \<le> 1
   \<and> shots (step unreadable (TimerFire 1) (run unreadable [Permission True, Toggle False] mounted)) = 0"
proof -
  let ?S = "run unreadable [Permission True, Toggle False] mounted"
  have g: "isSending (ui ?S) \<or> \<not> camera ?S"
    unfolding waiting_run by (simp add: mounted_def)
  have z: "shots ?S = 0"
    unfolding waiting_run by (simp add: mounted_def)
  have n: "\<forall>k out. TimerFire 1 \<noteq> Settle k out"
    by simp
  note sf = single_flight [OF refl, of unreadable "[Permission True, Toggle False]"]
  from sf have "length (inflight ?S) \<le> 1"
    by blast
  moreover from sf n g have "shots (step unreadable (TimerFire 1) ?S) = shots ?S"
    by blast
  ultimately show ?thesis
    using z by simp
qed

text \<open>
  C4. When a call that an instance of \<^verbatim>\<open>runCycle\<close> awaits ends, with whatever outcome
  (a rejected capture or \<^verbatim>\<open>fetch\<close>, a bad status, or a success), and the instance has not been
  cancelled, then exactly one timeout is pending afterwards: it has the delay 1500 and,
  when it fires, runs that instance's \<^verbatim>\<open>runCycle\<close> again.
\<close>

theorem rearm_after_cycle:
  assumes "s = run reading evs mounted" and "k < length (inflight s)"
    and "awaitedBy (inflight s ! k) = Some i" and "\<not> cancelled (closures s i)"
  shows "timers (step reading (Settle k out) s) =
           [\<lparr>tid = nextTimer s, instance_of = i, delay = 1500\<rparr>]
       \<and> inflight (step reading (Settle k out) s) = []
       \<and> \<not> isSending (ui (step reading (Settle k out) s))
       \<and> step reading (TimerFire (nextTimer s)) (step reading (Settle k out) s) =
           runCycle i ((step reading (Settle k out) s)\<lparr>timers := []\<rparr>)"
proof -
  have inv: "loop_inv s"
    unfolding assms(1) by (rule loop_inv_reachable)
  obtain c where c: "inflight s = [c]" and k: "k = 0"
    using inv assms(2) by (cases "inflight s") (auto simp: loop_inv_def)
  have i: "awaitedBy c = Some i" "i < nextInstance s"
    using inv c k assms(3) by (auto simp: loop_inv_def)
  then have live: "cleanup s = Some i"
    using inv assms(4) by (auto simp: loop_inv_def)
  then have d: "sawDetecting (closures s i)"
    using inv by (auto simp: loop_inv_def)
  have t: "timers s = []"
    using inv c i live by (auto simp: loop_inv_def)
  show ?thesis
    using c k i d t assms(4)
    by (simp add: settleCall_def rearm_def Let_def settle_isSending fire_def)
qed

lemma capturing_run:
  "run unreadable [Camera True, Permission True, Toggle False] mounted =
     mounted\<lparr>ui := idle\<lparr>isDetecting := True, isSending := True\<rparr>, camera := True,
       permission := Some True,
       closures := (closures mounted)
          (0 := \<lparr>sawSending = False, sawDetecting = True, cancelled = False\<rparr>),
       nextInstance := 1, cleanup := Some 0,
       inflight := [\<lparr>kind_of = Detect, awaitedBy = Some 0\<rparr>], shots := 1\<rparr>"
  by (simp add: handleToggleDetection_def render_def loopEffect_def runCleanup_def
      clearLoopTimer_def runCycle_def rearm_def enter_def granted_def toggled_def mounted_def
      idle_def Let_def)

theorem rearm_after_cycle_witness:
  "timers (step unreadable (Settle 0 (FetchRejected None))
             (run unreadable [Camera True, Permission True, Toggle False] mounted)) =
     [\<lparr>tid = 1, instance_of = 0, delay = 1500\<rparr>]"
proof -
  let ?S = "run unreadable [Camera True, Permission True, Toggle False] mounted"
  have "0 < length (inflight ?S)" "awaitedBy (inflight ?S ! 0) = Some 0"
    "\<not> cancelled (closures ?S 0)" "nextTimer ?S = 1"
    unfolding capturing_run by (simp_all add: mounted_def)
  then show ?thesis
    using rearm_after_cycle [OF refl, of 0 unreadable "[Camera True, Permission True, Toggle False]" 0
        "FetchRejected None"]
    by simp
qed

lemma timers_clearLoopTimer_empty: "timers s = [] \<Longrightarrow> timers (clearLoopTimer s) = []"
  by (simp add: clearLoopTimer_def split: option.splits)

lemma timers_runCleanup_empty: "timers s = [] \<Longrightarrow> timers (runCleanup s) = []"
  by (simp add: runCleanup_def timers_clearLoopTimer_empty split: option.splits)

lemma cancelled_runCleanup_mono:
  "cancelled (closures s i) \<Longrightarrow> cancelled (closures (runCleanup s) i)"
  by (simp add: runCleanup_fields split: option.splits)

lemma halted_loopEffect:
  assumes "halted s"
  shows "halted (loopEffect s)" and "shots (loopEffect s) = shots s"
  using assms
  by (auto simp: halted_def loopEffect_def Let_def runCleanup_fields clearLoopTimer_fields
      timers_clearLoopTimer_empty timers_runCleanup_empty cancelled_runCleanup_mono
      split: option.splits)

lemma halted_permission:
  assumes "halted s"
  shows "halted (render s (s\<lparr>permission := Some b\<rparr>))"
    and "shots (render s (s\<lparr>permission := Some b\<rparr>)) = shots s"
proof -
  have h: "halted (s\<lparr>permission := Some b\<rparr>)"
    using assms by (simp add: halted_def)
  have n: "\<not> isDetecting (ui (s\<lparr>permission := Some b\<rparr>))"
    using assms by (simp add: halted_def)
  show "halted (render s (s\<lparr>permission := Some b\<rparr>))"
    using h n halted_loopEffect(1) [OF h] by (simp add: render_def Let_def)
  show "shots (render s (s\<lparr>permission := Some b\<rparr>)) = shots s"
    using h n halted_loopEffect(2) [OF h] by (simp add: render_def Let_def)
qed

lemma halted_settle:
  assumes "halted s"
  shows "halted (settleCall reading k out s)" and "shots (settleCall reading k out s) = shots s"
proof -
  have sub: "set (take k (inflight s) @ drop (Suc k) (inflight s)) \<subseteq> set (inflight s)"
    using set_take_subset [of k "inflight s"] set_drop_subset [of "Suc k" "inflight s"] by auto
  have c: "k < length (inflight s) \<Longrightarrow> awaitedBy (inflight s ! k) = Some i \<Longrightarrow>
           cancelled (closures s i)" for i
    using assms by (auto simp: halted_def)
  show "halted (settleCall reading k out s)"
    using assms sub c
    by (auto simp: halted_def settleCall_def Let_def rearm_def settle_isDetecting
        split: option.splits kind.splits)
  show "shots (settleCall reading k out s) = shots s"
    by (auto simp: settleCall_def Let_def rearm_def split: option.splits)
qed

lemma halted_fire:
  assumes "halted s"
  shows "fire t s = s"
  using assms by (simp add: halted_def fire_def)

lemma halted_step:
  assumes "halted s" and "\<forall>b. e \<noteq> Toggle b"
  shows "halted (step reading e s) \<and> shots (step reading e s) = shots s"
proof (cases e)
  case (Toggle a)
  then show ?thesis using assms(2) by simp
next
  case (Permission b)
  then show ?thesis using assms(1) by (simp add: halted_permission)
next
  case (Camera b)
  then show ?thesis using assms(1) by (simp add: halted_def)
next
  case (TimerFire t)
  then show ?thesis using assms(1) by (simp add: halted_fire)
next
  case (Settle k out)
  then show ?thesis using assms(1) by (simp add: halted_settle)
qed

lemma halted_run:
  assumes "halted s" and "\<forall>e\<in>set evs. \<forall>b. e \<noteq> Toggle b"
  shows "halted (run reading evs s) \<and> shots (run reading evs s) = shots s"
  using assms
proof (induction evs arbitrary: s)
  case Nil
  then show ?case by simp
next
  case (Cons e evs)
  then have h: "halted (step reading e s)" "shots (step reading e s) = shots s"
    using halted_step [of s e reading] by auto
  from Cons.IH [OF h(1)] Cons.prems(2) h(2) show ?case by simp
qed

lemma stop_halts:
  assumes "loop_inv s" and "isDetecting (ui s)"
  shows "halted (handleToggleDetection a s)"
    and "inflight (handleToggleDetection a s) = inflight s"
    and "shots (handleToggleDetection a s) = shots s"
proof -
  have p: "permission s = Some True"
    using assms by (simp add: loop_inv_def granted_def)
  define n where "n = toggled s"
  have n: "\<not> isDetecting (ui n)" "granted n" "inflight n = inflight s" "shots n = shots s"
    "timers n = timers s" "loopRef n = loopRef s" "cleanup n = cleanup s"
    "closures n = closures s" "nextInstance n = nextInstance s"
    using assms(2) p by (simp_all add: n_def toggled_def granted_def)
  have h: "handleToggleDetection a s = clearLoopTimer (runCleanup n)"
    using p assms(2) n(1,2)
    by (simp add: handleToggleDetection_def render_def loopEffect_def Let_def
        n_def [symmetric] runCleanup_fields granted_def)
  have t: "timers (runCleanup n) = []"
    using assms(1) by (intro timers_runCleanup) (simp add: n loop_inv_def)
  have c: "cancelled (closures (runCleanup n) i)" if "i < nextInstance s" for i
    using assms(1) that by (intro cancelled_runCleanup) (simp_all add: n loop_inv_def)
  have own: "\<forall>c\<in>set (inflight s). \<exists>i<nextInstance s. awaitedBy c = Some i"
    using assms(1) by (simp add: loop_inv_def)
  show "halted (handleToggleDetection a s)"
    unfolding h using t c own n(1,3)
    by (auto simp: halted_def clearLoopTimer_fields runCleanup_fields
        timers_clearLoopTimer_empty)
  show "inflight (handleToggleDetection a s) = inflight s"
    unfolding h by (simp add: clearLoopTimer_fields runCleanup_fields n)
  show "shots (handleToggleDetection a s) = shots s"
    unfolding h by (simp add: clearLoopTimer_fields runCleanup_fields n)
qed

text \<open>
  C3. Switching detection off clears the pending timeout and leaves the outstanding call
  outstanding. From then on, as long as detection is not switched on again, no timeout is
  ever pending and no picture is taken; the outstanding call, when it ends, applies its
  outcome to the screen state and arms no timeout.
\<close>

theorem stop_is_final:
  assumes "s = run reading evs mounted" and "isDetecting (ui s)"
    and "s' = step reading (Toggle a) s"
    and "\<forall>e\<in>set later. \<forall>b. e \<noteq> Toggle b"
    and "t = run reading later s'"
  shows "\<not> isDetecting (ui s') \<and> timers s' = [] \<and> inflight s' = inflight s
       \<and> timers t = [] \<and> shots t = shots s
       \<and> (\<forall>k out. k < length (inflight t) \<longrightarrow>
             ui (step reading (Settle k out) t) = settle (detectBody reading) out (ui t)
           \<and> timers (step reading (Settle k out) t) = [])"
proof -
  have inv: "loop_inv s"
    unfolding assms(1) by (rule loop_inv_reachable)
  have s': "halted s'" "inflight s' = inflight s" "shots s' = shots s"
    unfolding assms(3) using stop_halts [OF inv assms(2)] by simp_all
  have t: "halted t" "shots t = shots s'"
    unfolding assms(5) using halted_run [OF s'(1) assms(4)] by simp_all
  have invt: "loop_inv t"
    unfolding assms(5) assms(3) assms(1)
    by (intro loop_inv_run loop_inv_step loop_inv_reachable)
  have "ui (step reading (Settle k out) t) = settle (detectBody reading) out (ui t)
           \<and> timers (step reading (Settle k out) t) = []" if "k < length (inflight t)" for k out
  proof -
    have "kind_of (inflight t ! k) = Detect"
      using invt that by (simp add: loop_inv_def)
    then have "ui (step reading (Settle k out) t) = settle (detectBody reading) out (ui t)"
      using that by (auto simp: settleCall_def Let_def rearm_fields split: option.splits)
    moreover have "halted (step reading (Settle k out) t)"
      using t(1) by (simp add: halted_settle)
    ultimately show ?thesis by (simp add: halted_def)
  qed
  then show ?thesis
    using s' t by (auto simp: halted_def)
qed


theorem stop_is_final_witness:
  "timers (run unreadable [Settle 0 (FetchRejected None), TimerFire 1]
            (step unreadable (Toggle False)
               (run unreadable [Camera True, Permission True, Toggle False] mounted))) = []
   \<and> shots (run unreadable [Settle 0 (FetchRejected None), TimerFire 1]
            (step unreadable (Toggle False)
               (run unreadable [Camera True, Permission True, Toggle False] mounted))) = 1"
proof -
  let ?S = "run unreadable [Camera True, Permission True, Toggle False] mounted"
  have d: "isDetecting (ui ?S)" and n: "shots ?S = 1"
    unfolding capturing_run by (simp_all add: mounted_def)
  have l: "\<forall>e\<in>set [Settle 0 (FetchRejected None), TimerFire 1]. \<forall>b. e \<noteq> Toggle b"
    by simp
  show ?thesis
    using stop_is_final [OF refl d refl l refl, of False] n by simp
qed

lemma between_cycles:
  "app_run unreadable
     [Loop (Camera True), Loop (Permission True), Loop (Toggle False),
      Loop (Settle 0 (Responded 200 (Body (JObj []))))] mounted =
   mounted\<lparr>ui := idle\<lparr>isDetecting := True\<rparr>, camera := True, permission := Some True,
       closures := (closures mounted)
          (0 := \<lparr>sawSending = False, sawDetecting = True, cancelled = False\<rparr>),
       nextInstance := 1, cleanup := Some 0, loopRef := Some 1,
       timers := [\<lparr>tid = 1, instance_of = 0, delay = 1500\<rparr>], nextTimer := 2,
       shots := 1\<rparr>"
  by (simp add: handleToggleDetection_def render_def loopEffect_def runCleanup_def
      clearLoopTimer_def runCycle_def rearm_def enter_def granted_def toggled_def mounted_def
      idle_def Let_def settleCall_def settle_def ok_def detectBody_def empty_body_objects
      coalesce_def speakAlert_def falsy_def)

text \<open>
  C10 at a run of \<^verbatim>\<open>app/index.tsx\<close>: detection is switched on, its first cycle ends, the
  smart query button is pressed, and the loop's timeout fires while that query is
  outstanding. The \<^verbatim>\<open>captureAndSend\<close> that \<^verbatim>\<open>runCycle\<close> calls is the one of the render in
  which the effect ran, whose \<^verbatim>\<open>isSending\<close> is false, so its guard lets the cycle through:
  two requests are outstanding.
\<close>

theorem smart_query_overlap:
  "inflight (app_run unreadable
     [Loop (Camera True), Loop (Permission True), Loop (Toggle False),
      Loop (Settle 0 (Responded 200 (Body (JObj [])))), Ask, Loop (TimerFire 1)] mounted) =
   [\<lparr>kind_of = Query defaultQuestion, awaitedBy = None\<rparr>,
    \<lparr>kind_of = Detect, awaitedBy = Some 0\<rparr>]"
proof -
  have "app_run unreadable
     [Loop (Camera True), Loop (Permission True), Loop (Toggle False),
      Loop (Settle 0 (Responded 200 (Body (JObj [])))), Ask, Loop (TimerFire 1)] mounted =
     app_run unreadable [Ask, Loop (TimerFire 1)]
       (app_run unreadable
          [Loop (Camera True), Loop (Permission True), Loop (Toggle False),
           Loop (Settle 0 (Responded 200 (Body (JObj []))))] mounted)"
    by simp
  then show ?thesis
    unfolding between_cycles
    by (simp add: pressSmartQuery_def enter_def fire_def runCycle_def mounted_def idle_def
        questionToSend_def trim_def)
qed

end
